theory Spec2Isabelle
  imports Main "HOL-Library.Word"
begin

section \<open>The ring-buffer iterator of \<^verbatim>\<open>src/c/ring-buffer-iter.c\<close>\<close>

text \<open>
  The two traversal modes named by the \<^verbatim>\<open>switch\<close> in \<^verbatim>\<open>rb_iter_advance\<close>. The \<^verbatim>\<open>switch\<close>
  has no \<^verbatim>\<open>default\<close>; the model has no third mode.
\<close>

datatype rb_iter_mode = RING_BUFFER_ITER_OLD_TO_NEW | RING_BUFFER_ITER_NEW_TO_OLD

text \<open>
  Modelled from the spec: the declaration of \<^verbatim>\<open>struct rb_iter\<close> lives in
  \<^verbatim>\<open>ring-buffer-iter.h\<close>, which is not among the sources. The code reads and writes the
  fields \<^verbatim>\<open>mode\<close>, \<^verbatim>\<open>index\<close>, \<^verbatim>\<open>size\<close> and \<^verbatim>\<open>steps\<close>; \<^verbatim>\<open>rb_iter_advance\<close> returns
  \<^verbatim>\<open>iter->index\<close> as a \<^verbatim>\<open>size_t\<close>. The three counters are therefore unsigned machine
  integers; their width \<open>'w\<close> is a parameter of the model (\<^verbatim>\<open>size_t\<close> has no fixed
  width in C). The field \<^verbatim>\<open>size\<close> is called \<open>size_rb\<close> here, since \<open>size\<close> is taken in HOL.
  In the words of the spec: \<open>size_rb\<close> is the capacity, \<open>index\<close> the position, \<open>mode\<close> the
  direction and \<open>steps\<close> the remaining count.
\<close>

record (overloaded) ('w::len) rb_iter =
  mode :: rb_iter_mode
  index :: "'w word"
  size_rb :: "'w word"
  steps :: "'w word"

text \<open>
  The only operation of the code that can fault: \<^verbatim>\<open>%\<close> with a zero right operand is
  undefined behaviour in C.
\<close>

datatype fault = DivisionByZero

text \<open>
  \<^verbatim>\<open>bool rb_iter_done(rb_iter *iter) { return (iter->steps == 0); }\<close>

  The function gets a pointer to the iterator; the model returns the answer together
  with the iterator as the call leaves it.
\<close>

definition rb_iter_done :: "'w::len rb_iter \<Rightarrow> bool \<times> 'w rb_iter" where
  "rb_iter_done iter = (steps iter = 0, iter)"

text \<open>
  The \<^verbatim>\<open>switch\<close> of \<^verbatim>\<open>rb_iter_advance\<close>: the assignment to \<^verbatim>\<open>iter->index\<close>.
  All arithmetic is that of the unsigned type: \<open>+\<close> and \<open>-\<close> on words wrap around, so
  \<^verbatim>\<open>iter->index + 1\<close> is 0 at the largest index and \<^verbatim>\<open>iter->size - 1\<close> is the largest
  value at size 0. Only the first mode divides.
\<close>

definition rb_iter_move :: "'w::len rb_iter \<Rightarrow> fault + 'w rb_iter" where
  "rb_iter_move iter =
     (case mode iter of
        RING_BUFFER_ITER_OLD_TO_NEW \<Rightarrow>
          if size_rb iter = 0 then Inl DivisionByZero
          else Inr (iter\<lparr>index := (index iter + 1) mod size_rb iter\<rparr>)
      | RING_BUFFER_ITER_NEW_TO_OLD \<Rightarrow>
          Inr (iter\<lparr>index := (if index iter = 0 then size_rb iter - 1 else index iter - 1)\<rparr>))"

text \<open>
  \<^verbatim>\<open>size_t rb_iter_advance(rb_iter *iter)\<close>: the switch, then \<^verbatim>\<open>iter->steps--\<close>, then
  \<^verbatim>\<open>return iter->index\<close>. The result is the returned index and the iterator as the
  call leaves it.
\<close>

definition rb_iter_advance :: "'w::len rb_iter \<Rightarrow> fault + ('w word \<times> 'w rb_iter)" where
  "rb_iter_advance iter =
     (case rb_iter_move iter of
        Inl e \<Rightarrow> Inl e
      | Inr iter1 \<Rightarrow>
          (let iter2 = iter1\<lparr>steps := steps iter1 - 1\<rparr>
           in Inr (index iter2, iter2)))"

text \<open>
  A caller making \<open>n\<close> successive calls of \<^verbatim>\<open>rb_iter_advance\<close> on the same iterator,
  collecting the returned indices in order. A fault in any call ends the run.
\<close>

fun advance_n :: "nat \<Rightarrow> 'w::len rb_iter \<Rightarrow> fault + ('w word list \<times> 'w rb_iter)" where
  "advance_n 0 iter = Inr ([], iter)"
| "advance_n (Suc n) iter =
     (case rb_iter_advance iter of
        Inl e \<Rightarrow> Inl e
      | Inr (r, iter1) \<Rightarrow>
          (case advance_n n iter1 of
             Inl e \<Rightarrow> Inl e
           | Inr (rs, iter2) \<Rightarrow> Inr (r # rs, iter2)))"

text \<open>
  A caller making \<open>n\<close> successive calls of \<^verbatim>\<open>rb_iter_done\<close> on the same iterator,
  collecting the answers in order.
\<close>

fun done_n :: "nat \<Rightarrow> 'w::len rb_iter \<Rightarrow> bool list \<times> 'w rb_iter" where
  "done_n 0 iter = ([], iter)"
| "done_n (Suc n) iter =
     (case rb_iter_done iter of
        (b, iter1) \<Rightarrow> (case done_n n iter1 of (bs, iter2) \<Rightarrow> (b # bs, iter2)))"

text \<open>
  A caller making any sequence of calls of the two functions on the same iterator:
  the calls, in order, and the iterator after the last one. The values returned by the
  calls are dropped here. A fault in a call ends the run.
\<close>

datatype rb_call = CALL_DONE | CALL_ADVANCE

fun run_calls :: "rb_call list \<Rightarrow> 'w::len rb_iter \<Rightarrow> fault + 'w rb_iter" where
  "run_calls [] iter = Inr iter"
| "run_calls (CALL_DONE # cs) iter =
     (case rb_iter_done iter of (b, iter1) \<Rightarrow> run_calls cs iter1)"
| "run_calls (CALL_ADVANCE # cs) iter =
     (case rb_iter_advance iter of
        Inl e \<Rightarrow> Inl e
      | Inr (r, iter1) \<Rightarrow> run_calls cs iter1)"

section \<open>The range validator of \<^verbatim>\<open>src/c++/Validator.h\<close>\<close>

text \<open>
  \<^verbatim>\<open>template <typename T> class RangeValidator\<close> has the two constant members
  \<^verbatim>\<open>min\<close> and \<^verbatim>\<open>max\<close> (\<open>min_rv\<close> and \<open>max_rv\<close> here, since \<open>min\<close> and \<open>max\<close> are taken in
  HOL).
\<close>

record 'a RangeValidator_obj =
  min_rv :: 'a
  max_rv :: 'a

text \<open>The constructor \<^verbatim>\<open>RangeValidator(T min_, T max_) : min(min_), max(max_) {}\<close>.\<close>

definition RangeValidator :: "'a \<Rightarrow> 'a \<Rightarrow> 'a RangeValidator_obj" where
  "RangeValidator min' max' = \<lparr>min_rv = min', max_rv = max'\<rparr>"

text \<open>
  \<^verbatim>\<open>bool operator()(const T v) const { return v >= min && v <= max; }\<close>

  The template only asks of \<^verbatim>\<open>T\<close> that \<^verbatim>\<open>>=\<close> and \<^verbatim>\<open><=\<close> exist; they are the parameters
  \<open>ge\<close> and \<open>le\<close> of the model. \<^verbatim>\<open>&&\<close> evaluates \<^verbatim>\<open>v <= max\<close> only when \<^verbatim>\<open>v >= min\<close> holds.
\<close>

definition RangeValidator_call ::
    "('a \<Rightarrow> 'a \<Rightarrow> bool) \<Rightarrow> ('a \<Rightarrow> 'a \<Rightarrow> bool) \<Rightarrow> 'a RangeValidator_obj \<Rightarrow> 'a \<Rightarrow> bool" where
  "RangeValidator_call ge le rv v = (if ge v (min_rv rv) then le v (max_rv rv) else False)"

section \<open>Unsigned arithmetic used by the iterator\<close>

text \<open>
  Where the index is below the capacity, neither \<open>index + 1\<close> nor the two decrements of
  the index wrap around; a decrement of \<open>steps\<close> wraps around at 0 only.
\<close>

lemma word_pred_less:
  fixes s :: "'w::len word"
  assumes "s \<noteq> 0"
  shows "s - 1 < s"
  using assms by (metis diff_0_right less_eq_dec_iff sub_wrap)

lemma word_pred_unat:
  fixes s :: "'w::len word"
  assumes "s \<noteq> 0"
  shows "unat (s - 1) = unat s - 1"
  using assms by (simp add: unat_minus_one)

lemma word_zero_pred_unat: "unat (0 - 1 :: 'w::len word) = 2 ^ LENGTH('w) - 1"
  by (simp add: unsigned_minus_1_eq_mask mask_eq_exp_minus_1)

lemma succ_no_wrap:
  fixes i n :: "'w::len word"
  assumes "i < n"
  shows "unat (i + 1) = Suc (unat i)"
proof -
  have "i + 1 \<noteq> 0" using assms
    by (metis word_not_simps(3) max_word_wrap)
  then show ?thesis by (simp add: unatSuc add.commute)
qed

lemma succ_mod_unat:
  fixes i n :: "'w::len word"
  assumes "i < n"
  shows "unat ((i + 1) mod n) = Suc (unat i) mod unat n"
  using succ_no_wrap [OF assms] by (simp add: unat_mod)

lemma succ_mod_less:
  fixes i n :: "'w::len word"
  assumes "n \<noteq> 0"
  shows "(i + 1) mod n < n"
  using assms by (simp add: word_mod_less_divisor word_gt_0)

lemma pred_wrap_less:
  fixes i n :: "'w::len word"
  assumes "i < n"
  shows "(if i = 0 then n - 1 else i - 1) < n"
proof (cases "i = 0")
  case True
  with assms have "n \<noteq> 0" by auto
  then show ?thesis using True by (simp add: word_pred_less)
next
  case False
  then have "i - 1 < i" by (rule word_pred_less)
  with assms False show ?thesis by simp
qed

section \<open>One call, and runs of calls\<close>

lemma move_old_to_new:
  assumes "mode iter = RING_BUFFER_ITER_OLD_TO_NEW" "size_rb iter \<noteq> 0"
  shows "rb_iter_move iter = Inr (iter\<lparr>index := (index iter + 1) mod size_rb iter\<rparr>)"
  using assms by (simp add: rb_iter_move_def)

lemma move_new_to_old:
  assumes "mode iter = RING_BUFFER_ITER_NEW_TO_OLD"
  shows "rb_iter_move iter =
           Inr (iter\<lparr>index := (if index iter = 0 then size_rb iter - 1 else index iter - 1)\<rparr>)"
  using assms by (simp add: rb_iter_move_def)

lemma advance_old_to_new:
  assumes "mode iter = RING_BUFFER_ITER_OLD_TO_NEW" "size_rb iter \<noteq> 0"
  shows "rb_iter_advance iter =
           Inr ((index iter + 1) mod size_rb iter,
                iter\<lparr>index := (index iter + 1) mod size_rb iter, steps := steps iter - 1\<rparr>)"
  using assms by (simp add: rb_iter_advance_def move_old_to_new)

lemma advance_new_to_old:
  assumes "mode iter = RING_BUFFER_ITER_NEW_TO_OLD"
  shows "rb_iter_advance iter =
           Inr (if index iter = 0 then size_rb iter - 1 else index iter - 1,
                iter\<lparr>index := (if index iter = 0 then size_rb iter - 1 else index iter - 1),
                     steps := steps iter - 1\<rparr>)"
  using assms by (simp add: rb_iter_advance_def move_new_to_old)

lemma advance_step:
  assumes "index iter < size_rb iter"
  shows "\<exists>r iter'. rb_iter_advance iter = Inr (r, iter') \<and> r < size_rb iter \<and>
           index iter' = r \<and> size_rb iter' = size_rb iter \<and> mode iter' = mode iter \<and>
           steps iter' = steps iter - 1"
proof (cases "mode iter")
  case RING_BUFFER_ITER_OLD_TO_NEW
  from assms have nz: "size_rb iter \<noteq> 0" by auto
  show ?thesis
    using RING_BUFFER_ITER_OLD_TO_NEW nz
    by (simp add: advance_old_to_new succ_mod_less)
next
  case RING_BUFFER_ITER_NEW_TO_OLD
  show ?thesis
    using RING_BUFFER_ITER_NEW_TO_OLD pred_wrap_less [OF assms]
    by (simp add: advance_new_to_old)
qed

lemma advance_n_run:
  assumes "index iter < size_rb iter"
  shows "\<exists>rs iter'. advance_n n iter = Inr (rs, iter') \<and> length rs = n \<and>
           (\<forall>r \<in> set rs. r < size_rb iter) \<and> index iter' < size_rb iter \<and>
           size_rb iter' = size_rb iter \<and> mode iter' = mode iter \<and>
           steps iter' = steps iter - of_nat n"
  using assms
proof (induction n arbitrary: iter)
  case 0
  then show ?case by simp
next
  case (Suc n)
  from advance_step [OF Suc.prems] obtain r iter1 where
    a: "rb_iter_advance iter = Inr (r, iter1)" and r: "r < size_rb iter" and
    i: "index iter1 = r" and s: "size_rb iter1 = size_rb iter" and
    m: "mode iter1 = mode iter" and st: "steps iter1 = steps iter - 1"
    by blast
  from r i s have "index iter1 < size_rb iter1" by simp
  from Suc.IH [OF this] obtain rs iter2 where
    b: "advance_n n iter1 = Inr (rs, iter2)" and l: "length rs = n" and
    rs: "\<forall>r \<in> set rs. r < size_rb iter1" and i2: "index iter2 < size_rb iter1" and
    s2: "size_rb iter2 = size_rb iter1" and m2: "mode iter2 = mode iter1" and
    st2: "steps iter2 = steps iter1 - of_nat n"
    by blast
  have "advance_n (Suc n) iter = Inr (r # rs, iter2)" using a b by simp
  moreover have "steps iter2 = steps iter - of_nat (Suc n)" using st st2 by simp
  ultimately show ?case using l rs r i2 s s2 m m2 by simp
qed

lemma unat_sub_of_nat:
  fixes s :: "'w::len word"
  assumes "n \<le> unat s"
  shows "unat (s - of_nat n) = unat s - n"
proof -
  have "n < 2 ^ LENGTH('w)" using assms unsigned_less [of s] by (rule le_less_trans)
  then have u: "unat (of_nat n :: 'w word) = n" by (simp add: unat_of_nat)
  then have "(of_nat n :: 'w word) \<le> s" using assms by (simp add: word_le_nat_alt)
  then show ?thesis using u by (simp add: unat_sub)
qed

lemma steps_zero_iff:
  fixes s :: "'w::len word"
  assumes "n \<le> unat s"
  shows "s - of_nat n = 0 \<longleftrightarrow> n = unat s"
proof -
  have "s - of_nat n = 0 \<longleftrightarrow> unat (s - of_nat n) = 0" by (simp add: unat_eq_zero)
  also have "\<dots> \<longleftrightarrow> unat s - n = 0" by (simp add: unat_sub_of_nat [OF assms])
  also have "\<dots> \<longleftrightarrow> n = unat s" using assms by auto
  finally show ?thesis .
qed

lemma done_n_run: "done_n n iter = (replicate n (steps iter = 0), iter)"
  by (induction n) (simp_all add: rb_iter_done_def)

lemma run_calls_within_budget:
  assumes "index iter < size_rb iter"
    and "count_list cs CALL_ADVANCE \<le> unat (steps iter)"
  shows "\<exists>iter'. run_calls cs iter = Inr iter' \<and>
           unat (steps iter') = unat (steps iter) - count_list cs CALL_ADVANCE \<and>
           index iter' < size_rb iter' \<and> size_rb iter' = size_rb iter \<and>
           mode iter' = mode iter"
  using assms
proof (induction cs arbitrary: iter)
  case Nil
  then show ?case by simp
next
  case (Cons c cs)
  show ?case
  proof (cases c)
    case CALL_DONE
    with Cons.prems have "count_list cs CALL_ADVANCE \<le> unat (steps iter)" by simp
    from Cons.IH [OF Cons.prems(1) this] show ?thesis
      using CALL_DONE by (simp add: rb_iter_done_def)
  next
    case CALL_ADVANCE
    with Cons.prems have le: "Suc (count_list cs CALL_ADVANCE) \<le> unat (steps iter)" by simp
    then have nz: "steps iter \<noteq> 0" by (auto simp: unat_eq_zero)
    from advance_step [OF Cons.prems(1)] obtain r iter1 where
      a: "rb_iter_advance iter = Inr (r, iter1)" and r: "r < size_rb iter" and
      i: "index iter1 = r" and s: "size_rb iter1 = size_rb iter" and
      m: "mode iter1 = mode iter" and st: "steps iter1 = steps iter - 1"
      by blast
    have u: "unat (steps iter1) = unat (steps iter) - 1"
      using st nz by (simp add: word_pred_unat)
    have "index iter1 < size_rb iter1" using r i s by simp
    moreover have "count_list cs CALL_ADVANCE \<le> unat (steps iter1)" using le u by simp
    ultimately obtain iter' where
      b: "run_calls cs iter1 = Inr iter'" and
      c: "unat (steps iter') = unat (steps iter1) - count_list cs CALL_ADVANCE" and
      d: "index iter' < size_rb iter'" "size_rb iter' = size_rb iter1" "mode iter' = mode iter1"
      using Cons.IH [of iter1] by blast
    have "run_calls (c # cs) iter = Inr iter'" using CALL_ADVANCE a b by simp
    moreover have "unat (steps iter') = unat (steps iter) - count_list (c # cs) CALL_ADVANCE"
      using c u CALL_ADVANCE by simp
    ultimately show ?thesis using d s m by simp
  qed
qed

lemma old_to_new_position:
  assumes "mode iter = RING_BUFFER_ITER_OLD_TO_NEW" "index iter < size_rb iter"
  shows "\<exists>rs iter'. advance_n n iter = Inr (rs, iter') \<and>
           unat (index iter') = (unat (index iter) + n) mod unat (size_rb iter)"
  using assms
proof (induction n arbitrary: iter)
  case 0
  then have "unat (index iter) < unat (size_rb iter)" by (simp add: word_less_nat_alt)
  then show ?case by simp
next
  case (Suc n)
  from Suc.prems have nz: "size_rb iter \<noteq> 0" by auto
  let ?i1 = "(index iter + 1) mod size_rb iter"
  let ?iter1 = "iter\<lparr>index := ?i1, steps := steps iter - 1\<rparr>"
  have a: "rb_iter_advance iter = Inr (?i1, ?iter1)"
    using Suc.prems(1) nz by (rule advance_old_to_new)
  have "mode ?iter1 = RING_BUFFER_ITER_OLD_TO_NEW" using Suc.prems(1) by simp
  moreover have "index ?iter1 < size_rb ?iter1" using nz by (simp add: succ_mod_less)
  ultimately obtain rs iter' where
    b: "advance_n n ?iter1 = Inr (rs, iter')" and
    c: "unat (index iter') = (unat (index ?iter1) + n) mod unat (size_rb ?iter1)"
    using Suc.IH [of ?iter1] by blast
  have "unat (index ?iter1) = Suc (unat (index iter)) mod unat (size_rb iter)"
    using succ_mod_unat [OF Suc.prems(2)] by simp
  with c have "unat (index iter') = (Suc (unat (index iter)) mod unat (size_rb iter) + n) mod unat (size_rb iter)"
    by simp
  also have "\<dots> = (unat (index iter) + Suc n) mod unat (size_rb iter)"
    by (simp add: mod_add_left_eq)
  finally have "unat (index iter') = (unat (index iter) + Suc n) mod unat (size_rb iter)" .
  moreover have "advance_n (Suc n) iter = Inr (?i1 # rs, iter')" using a b by simp
  ultimately show ?case by blast
qed

lemma cycle_nat:
  fixes p c k :: nat
  assumes "p < c"
  shows "(p + c) mod c = p" and "0 < k \<Longrightarrow> k < c \<Longrightarrow> (p + k) mod c \<noteq> p"
proof -
  show "(p + c) mod c = p" using assms by simp
next
  assume k: "0 < k" "k < c"
  show "(p + k) mod c \<noteq> p"
  proof (cases "p + k < c")
    case True
    then show ?thesis using k by simp
  next
    case False
    then have "(p + k) mod c = p + k - c" using assms k
      by (simp add: mod_if)
    then show ?thesis using k False by simp
  qed
qed

lemma inverse_word:
  fixes p n :: "'w::len word"
  assumes "p < n"
  shows "(if (p + 1) mod n = 0 then n - 1 else (p + 1) mod n - 1) = p"
proof (cases "p + 1 = n")
  case True
  then have "(p + 1) mod n = 0" by simp
  moreover have "n - 1 = p" unfolding True [symmetric] by simp
  ultimately show ?thesis by simp
next
  case False
  have u: "unat (p + 1) = Suc (unat p)" using assms by (rule succ_no_wrap)
  have "unat p < unat n" using assms by (simp add: word_less_nat_alt)
  moreover have "Suc (unat p) \<noteq> unat n" using False u by (auto simp: word_unat_eq_iff)
  ultimately have "unat (p + 1) < unat n" using u by simp
  then have lt: "p + 1 < n" by (simp add: word_less_nat_alt)
  then have m: "(p + 1) mod n = p + 1" by (simp add: word_mod_less_divisor mod_word_less)
  have "p + 1 \<noteq> 0" using u by (metis unat_0 nat.distinct(1))
  then show ?thesis using m by simp
qed

section \<open>The claims about the iterator\<close>

text \<open>
  C1. For every iterator with capacity \<open>size_rb \<ge> 1\<close> and position \<open>index\<close> in
  \<open>[0, size_rb)\<close>, in either mode: one call of \<^verbatim>\<open>rb_iter_advance\<close> returns an index
  below the capacity and leaves the stored index below the capacity; and so does every
  call in a run of \<open>n\<close> successive calls, for every \<open>n\<close> (also beyond the step budget).
  Indices are unsigned, so \<open>0 \<le> r\<close> holds of each of them.
\<close>

theorem advance_index_in_range:
  assumes "1 \<le> size_rb iter" and "index iter < size_rb iter"
  shows "(\<exists>r iter1. rb_iter_advance iter = Inr (r, iter1) \<and> 0 \<le> r \<and> r < size_rb iter \<and>
            index iter1 < size_rb iter1 \<and> size_rb iter1 = size_rb iter) \<and>
         (\<exists>rs iter'. advance_n n iter = Inr (rs, iter') \<and> length rs = n \<and>
            (\<forall>r \<in> set rs. 0 \<le> r \<and> r < size_rb iter) \<and>
            index iter' < size_rb iter' \<and> size_rb iter' = size_rb iter)"
proof
  from advance_step [OF assms(2)]
  show "\<exists>r iter1. rb_iter_advance iter = Inr (r, iter1) \<and> 0 \<le> r \<and> r < size_rb iter \<and>
          index iter1 < size_rb iter1 \<and> size_rb iter1 = size_rb iter"
    by auto
next
  from advance_n_run [OF assms(2), of n]
  show "\<exists>rs iter'. advance_n n iter = Inr (rs, iter') \<and> length rs = n \<and>
          (\<forall>r \<in> set rs. 0 \<le> r \<and> r < size_rb iter) \<and>
          index iter' < size_rb iter' \<and> size_rb iter' = size_rb iter"
    by auto
qed

theorem advance_index_in_range_witness:
  "\<exists>rs iter'.
     advance_n 7 \<lparr>mode = RING_BUFFER_ITER_NEW_TO_OLD, index = 0, size_rb = 5,
                  steps = 3 :: 64 word\<rparr> = Inr (rs, iter') \<and>
     length rs = 7 \<and> (\<forall>r \<in> set rs. r < 5) \<and> index iter' < 5 \<and> size_rb iter' = 5"
  using advance_index_in_range
    [of "\<lparr>mode = RING_BUFFER_ITER_NEW_TO_OLD, index = 0, size_rb = 5, steps = 3 :: 64 word\<rparr>" 7]
  by auto

text \<open>
  C2. In mode \<^verbatim>\<open>RING_BUFFER_ITER_OLD_TO_NEW\<close>, with capacity \<open>\<ge> 1\<close> and the index below
  the capacity, \<^verbatim>\<open>rb_iter_advance\<close> stores \<open>(index + 1) mod size_rb\<close> and returns it.
  The sum does not wrap around in the machine type, so the same equation holds of the
  numbers the words stand for. With capacity 5 and index 4 the call returns 0.
\<close>

theorem advance_old_to_new_mod:
  assumes "mode iter = RING_BUFFER_ITER_OLD_TO_NEW"
    and "1 \<le> size_rb iter" and "index iter < size_rb iter"
  shows "\<exists>r iter'. rb_iter_advance iter = Inr (r, iter') \<and> index iter' = r \<and>
           r = (index iter + 1) mod size_rb iter \<and>
           unat r = (unat (index iter) + 1) mod unat (size_rb iter) \<and>
           (unat (size_rb iter) = 5 \<and> unat (index iter) = 4 \<longrightarrow> r = 0)"
proof -
  from assms(3) have nz: "size_rb iter \<noteq> 0" by auto
  let ?r = "(index iter + 1) mod size_rb iter"
  have a: "rb_iter_advance iter = Inr (?r, iter\<lparr>index := ?r, steps := steps iter - 1\<rparr>)"
    using assms(1) nz by (rule advance_old_to_new)
  have u: "unat ?r = (unat (index iter) + 1) mod unat (size_rb iter)"
    using succ_mod_unat [OF assms(3)] by simp
  have "unat (size_rb iter) = 5 \<and> unat (index iter) = 4 \<longrightarrow> ?r = 0"
    using u by (auto simp: unat_eq_zero [symmetric])
  with a u show ?thesis by simp
qed

theorem advance_old_to_new_mod_witness:
  "\<exists>iter'. rb_iter_advance \<lparr>mode = RING_BUFFER_ITER_OLD_TO_NEW, index = 4, size_rb = 5,
                              steps = 3 :: 64 word\<rparr> = Inr (0, iter') \<and>
           index iter' = 0"
  using advance_old_to_new_mod
    [of "\<lparr>mode = RING_BUFFER_ITER_OLD_TO_NEW, index = 4, size_rb = 5, steps = 3 :: 64 word\<rparr>"]
  by auto

text \<open>
  C3. In mode \<^verbatim>\<open>RING_BUFFER_ITER_NEW_TO_OLD\<close>, with capacity \<open>\<ge> 1\<close> and the index below
  the capacity, \<^verbatim>\<open>rb_iter_advance\<close> stores \<open>size_rb - 1\<close> when the index is 0 and
  \<open>index - 1\<close> otherwise, and returns it. Neither subtraction wraps around: the number
  returned, plus one, is the capacity in the first case and the old index in the second. With capacity 5 and index 0 the call
  returns 4.
\<close>

theorem advance_new_to_old_pred:
  assumes "mode iter = RING_BUFFER_ITER_NEW_TO_OLD"
    and "1 \<le> size_rb iter" and "index iter < size_rb iter"
  shows "\<exists>r iter'. rb_iter_advance iter = Inr (r, iter') \<and> index iter' = r \<and>
           r = (if index iter = 0 then size_rb iter - 1 else index iter - 1) \<and>
           unat r + 1 = (if unat (index iter) = 0 then unat (size_rb iter)
                         else unat (index iter)) \<and>
           (unat (size_rb iter) = 5 \<and> unat (index iter) = 0 \<longrightarrow> unat r = 4)"
proof -
  from assms(3) have nz: "size_rb iter \<noteq> 0" by auto
  let ?r = "if index iter = 0 then size_rb iter - 1 else index iter - 1"
  have a: "rb_iter_advance iter = Inr (?r, iter\<lparr>index := ?r, steps := steps iter - 1\<rparr>)"
    using assms(1) by (rule advance_new_to_old)
  have s: "0 < unat (size_rb iter)" using nz by (simp add: unat_gt_0)
  have u: "unat ?r + 1 = (if unat (index iter) = 0 then unat (size_rb iter)
                          else unat (index iter))"
  proof (cases "index iter = 0")
    case True
    then show ?thesis using nz s by (simp add: word_pred_unat)
  next
    case False
    then have "0 < unat (index iter)" by (simp add: unat_gt_0)
    then show ?thesis using False by (simp add: word_pred_unat)
  qed
  have "unat (size_rb iter) = 5 \<and> unat (index iter) = 0 \<longrightarrow> unat ?r = 4"
    using u by auto
  with a u show ?thesis by simp
qed

theorem advance_new_to_old_pred_witness:
  "\<exists>iter'. rb_iter_advance \<lparr>mode = RING_BUFFER_ITER_NEW_TO_OLD, index = 0, size_rb = 5,
                              steps = 3 :: 64 word\<rparr> = Inr (4, iter') \<and>
           index iter' = 4"
  using advance_new_to_old_pred
    [of "\<lparr>mode = RING_BUFFER_ITER_NEW_TO_OLD, index = 0, size_rb = 5, steps = 3 :: 64 word\<rparr>"]
  by auto

text \<open>
  C4. For every iterator with capacity \<open>\<ge> 1\<close>, the index below the capacity and
  \<open>steps = step_count\<close> (what a valid construction establishes), and every
  \<open>k \<le> step_count\<close>: \<open>k\<close> successive calls of \<^verbatim>\<open>rb_iter_advance\<close> all return, they
  leave \<open>steps\<close> at \<open>step_count - k\<close> (each call takes off exactly one), and
  \<^verbatim>\<open>rb_iter_done\<close> then answers true exactly when \<open>k = step_count\<close>. So it answers false
  before each of the \<open>step_count\<close> calls and true after the last, and only then.
\<close>

theorem advance_step_count_exhausts:
  assumes "1 \<le> size_rb iter" and "index iter < size_rb iter"
    and "k \<le> unat (steps iter)"
  shows "\<exists>rs iter'. advance_n k iter = Inr (rs, iter') \<and> length rs = k \<and>
           steps iter' = steps iter - of_nat k \<and>
           unat (steps iter') + k = unat (steps iter) \<and>
           (fst (rb_iter_done iter') \<longleftrightarrow> k = unat (steps iter))"
proof -
  from advance_n_run [OF assms(2), of k] obtain rs iter' where
    a: "advance_n k iter = Inr (rs, iter')" and l: "length rs = k" and
    st: "steps iter' = steps iter - of_nat k"
    by blast
  have "unat (steps iter') + k = unat (steps iter)"
    using st unat_sub_of_nat [OF assms(3)] assms(3) by simp
  moreover have "fst (rb_iter_done iter') \<longleftrightarrow> k = unat (steps iter)"
    using st steps_zero_iff [OF assms(3)] by (simp add: rb_iter_done_def)
  ultimately show ?thesis using a l st by blast
qed

theorem advance_step_count_exhausts_witness:
  "(\<exists>rs iter'. advance_n 2 \<lparr>mode = RING_BUFFER_ITER_OLD_TO_NEW, index = 4, size_rb = 5,
                                 steps = 3 :: 64 word\<rparr> = Inr (rs, iter') \<and>
        unat (steps iter') + 2 = 3 \<and> \<not> fst (rb_iter_done iter')) \<and>
   (\<exists>rs iter'. advance_n 3 \<lparr>mode = RING_BUFFER_ITER_OLD_TO_NEW, index = 4, size_rb = 5,
                                 steps = 3 :: 64 word\<rparr> = Inr (rs, iter') \<and>
        unat (steps iter') + 3 = 3 \<and> fst (rb_iter_done iter'))"
  using advance_step_count_exhausts
    [of "\<lparr>mode = RING_BUFFER_ITER_OLD_TO_NEW, index = 4, size_rb = 5, steps = 3 :: 64 word\<rparr>" 2]
    advance_step_count_exhausts
    [of "\<lparr>mode = RING_BUFFER_ITER_OLD_TO_NEW, index = 4, size_rb = 5, steps = 3 :: 64 word\<rparr>" 3]
  by auto

text \<open>
  C5, as the spec states it: over every sequence of calls \<open>steps\<close> never increases, and
  once it is 0 it stays 0. The code does not check for exhaustion: one call of
  \<^verbatim>\<open>rb_iter_advance\<close> on an exhausted, otherwise valid 64-bit iterator takes \<open>steps\<close>
  from 0 to \<open>2^64 - 1\<close>, after which \<^verbatim>\<open>rb_iter_done\<close> answers false.
\<close>

theorem steps_never_increase_counterexample:
  "fst (rb_iter_done \<lparr>mode = RING_BUFFER_ITER_OLD_TO_NEW, index = 0, size_rb = 5,
                       steps = 0 :: 64 word\<rparr>) \<and>
   run_calls [CALL_ADVANCE] \<lparr>mode = RING_BUFFER_ITER_OLD_TO_NEW, index = 0, size_rb = 5,
                              steps = 0 :: 64 word\<rparr> =
     Inr \<lparr>mode = RING_BUFFER_ITER_OLD_TO_NEW, index = 1, size_rb = 5,
          steps = 18446744073709551615\<rparr> \<and>
   (0 :: 64 word) < 18446744073709551615 \<and>
   \<not> fst (rb_iter_done \<lparr>mode = RING_BUFFER_ITER_OLD_TO_NEW, index = 1, size_rb = 5,
                         steps = 18446744073709551615 :: 64 word\<rparr>)"
  by (simp add: rb_iter_done_def rb_iter_advance_def rb_iter_move_def)

text \<open>
  C5, amended: for every iterator with capacity \<open>\<ge> 1\<close> and the index below the capacity,
  and every sequence of calls of \<^verbatim>\<open>rb_iter_done\<close> and \<^verbatim>\<open>rb_iter_advance\<close> that calls
  \<^verbatim>\<open>rb_iter_advance\<close> at most \<open>steps\<close> times (that is, never on an exhausted iterator): all
  calls return, and \<open>steps\<close> ends at its initial value minus the number of
  \<^verbatim>\<open>rb_iter_advance\<close> calls. So \<open>steps\<close> never increases, never passes below 0, goes down
  by one with each \<^verbatim>\<open>rb_iter_advance\<close> and is left alone by \<^verbatim>\<open>rb_iter_done\<close>; once it is
  0 it stays 0 for as long as only \<^verbatim>\<open>rb_iter_done\<close> is called.
\<close>

theorem steps_decrease_within_budget:
  assumes "1 \<le> size_rb iter" and "index iter < size_rb iter"
    and "count_list cs CALL_ADVANCE \<le> unat (steps iter)"
  shows "\<exists>iter'. run_calls cs iter = Inr iter' \<and>
           unat (steps iter') + count_list cs CALL_ADVANCE = unat (steps iter) \<and>
           steps iter' \<le> steps iter \<and>
           (steps iter = 0 \<longrightarrow> steps iter' = 0)"
proof -
  from run_calls_within_budget [OF assms(2,3)] obtain iter' where
    a: "run_calls cs iter = Inr iter'" and
    u: "unat (steps iter') = unat (steps iter) - count_list cs CALL_ADVANCE"
    by blast
  have e: "unat (steps iter') + count_list cs CALL_ADVANCE = unat (steps iter)"
    using u assms(3) by simp
  then have "steps iter' \<le> steps iter" by (simp add: word_le_nat_alt)
  moreover have "steps iter = 0 \<longrightarrow> steps iter' = 0"
    using e by (auto simp: unat_eq_zero [symmetric])
  ultimately show ?thesis using a e by blast
qed

theorem steps_decrease_within_budget_witness:
  "(\<exists>iter'. run_calls [CALL_DONE, CALL_ADVANCE, CALL_DONE, CALL_DONE, CALL_ADVANCE]
              \<lparr>mode = RING_BUFFER_ITER_NEW_TO_OLD, index = 1, size_rb = 5,
               steps = 3 :: 64 word\<rparr> = Inr iter' \<and>
            unat (steps iter') + 2 = 3 \<and> steps iter' \<le> 3) \<and>
   (\<exists>iter'. run_calls [CALL_DONE, CALL_DONE]
              \<lparr>mode = RING_BUFFER_ITER_NEW_TO_OLD, index = 1, size_rb = 5,
               steps = 0 :: 64 word\<rparr> = Inr iter' \<and>
            steps iter' = 0)"
  using steps_decrease_within_budget
    [of "\<lparr>mode = RING_BUFFER_ITER_NEW_TO_OLD, index = 1, size_rb = 5, steps = 3 :: 64 word\<rparr>"
        "[CALL_DONE, CALL_ADVANCE, CALL_DONE, CALL_DONE, CALL_ADVANCE]"]
    steps_decrease_within_budget
    [of "\<lparr>mode = RING_BUFFER_ITER_NEW_TO_OLD, index = 1, size_rb = 5, steps = 0 :: 64 word\<rparr>"
        "[CALL_DONE, CALL_DONE]"]
  by auto

text \<open>
  C6. \<^verbatim>\<open>rb_iter_done\<close> answers true exactly when \<open>steps\<close> is 0 and leaves the iterator as
  it was, field by field. Called \<open>n\<close> times in a row, for any \<open>n\<close> and also on an
  exhausted iterator, it gives the same answer \<open>n\<close> times and still leaves the iterator
  as it was.
\<close>

theorem done_iff_no_steps_left:
  "fst (rb_iter_done iter) = (steps iter = 0) \<and>
   fst (rb_iter_done iter) = (unat (steps iter) = 0) \<and>
   snd (rb_iter_done iter) = iter \<and>
   done_n n iter = (replicate n (steps iter = 0), iter)"
  by (simp add: rb_iter_done_def done_n_run unat_eq_zero)

text \<open>
  C7. In mode \<^verbatim>\<open>RING_BUFFER_ITER_OLD_TO_NEW\<close>, with capacity \<open>> 1\<close> and the index \<open>p\<close> below
  the capacity: after \<open>size_rb\<close> successive calls of \<^verbatim>\<open>rb_iter_advance\<close> the index is \<open>p\<close>
  again, and after any smaller positive number of calls it is not.
\<close>

theorem old_to_new_full_cycle:
  assumes "mode iter = RING_BUFFER_ITER_OLD_TO_NEW"
    and "1 < size_rb iter" and "index iter < size_rb iter"
  shows "(\<exists>rs iter'. advance_n (unat (size_rb iter)) iter = Inr (rs, iter') \<and>
            index iter' = index iter) \<and>
         (\<forall>k. 0 < k \<and> k < unat (size_rb iter) \<longrightarrow>
            (\<exists>rs iter'. advance_n k iter = Inr (rs, iter') \<and> index iter' \<noteq> index iter))"
proof (intro conjI allI impI)
  have p: "unat (index iter) < unat (size_rb iter)"
    using assms(3) by (simp add: word_less_nat_alt)
  from old_to_new_position [OF assms(1,3), of "unat (size_rb iter)"] obtain rs iter' where
    a: "advance_n (unat (size_rb iter)) iter = Inr (rs, iter')" and
    b: "unat (index iter') = (unat (index iter) + unat (size_rb iter)) mod unat (size_rb iter)"
    by blast
  from b have "unat (index iter') = unat (index iter)" using cycle_nat(1) [OF p] by simp
  then have "index iter' = index iter" by (simp add: word_unat_eq_iff)
  with a show "\<exists>rs iter'. advance_n (unat (size_rb iter)) iter = Inr (rs, iter') \<and>
                 index iter' = index iter"
    by blast
  fix k
  assume k: "0 < k \<and> k < unat (size_rb iter)"
  from old_to_new_position [OF assms(1,3), of k] obtain rs iter' where
    a: "advance_n k iter = Inr (rs, iter')" and
    b: "unat (index iter') = (unat (index iter) + k) mod unat (size_rb iter)"
    by blast
  from b have "unat (index iter') \<noteq> unat (index iter)"
    using cycle_nat(2) [OF p, of k] k by simp
  then have "index iter' \<noteq> index iter" by auto
  with a show "\<exists>rs iter'. advance_n k iter = Inr (rs, iter') \<and> index iter' \<noteq> index iter"
    by blast
qed

theorem old_to_new_full_cycle_witness:
  "(\<exists>rs iter'. advance_n 5 \<lparr>mode = RING_BUFFER_ITER_OLD_TO_NEW, index = 2, size_rb = 5,
                                 steps = 5 :: 64 word\<rparr> = Inr (rs, iter') \<and>
        index iter' = 2) \<and>
   (\<exists>rs iter'. advance_n 3 \<lparr>mode = RING_BUFFER_ITER_OLD_TO_NEW, index = 2, size_rb = 5,
                                 steps = 5 :: 64 word\<rparr> = Inr (rs, iter') \<and>
        index iter' \<noteq> 2)"
proof -
  let ?X = "\<lparr>mode = RING_BUFFER_ITER_OLD_TO_NEW, index = 2, size_rb = 5, steps = 5 :: 64 word\<rparr>"
  have h: "mode ?X = RING_BUFFER_ITER_OLD_TO_NEW" "1 < size_rb ?X" "index ?X < size_rb ?X"
    by simp_all
  have u: "unat (size_rb ?X) = 5" by simp
  from old_to_new_full_cycle [OF h] have
    c: "\<exists>rs iter'. advance_n (unat (size_rb ?X)) ?X = Inr (rs, iter') \<and> index iter' = index ?X"
    and d: "\<forall>k. 0 < k \<and> k < unat (size_rb ?X) \<longrightarrow>
            (\<exists>rs iter'. advance_n k ?X = Inr (rs, iter') \<and> index iter' \<noteq> index ?X)"
    by blast+
  from d have "\<exists>rs iter'. advance_n 3 ?X = Inr (rs, iter') \<and> index iter' \<noteq> index ?X"
    unfolding u by simp
  with c show ?thesis unfolding u by simp
qed

text \<open>
  C8. With capacity \<open>> 0\<close> and the index \<open>p\<close> below the capacity: let one call of
  \<^verbatim>\<open>rb_iter_advance\<close> in mode \<^verbatim>\<open>RING_BUFFER_ITER_OLD_TO_NEW\<close> return \<open>r\<close>. Then on any
  iterator of the same capacity in mode \<^verbatim>\<open>RING_BUFFER_ITER_NEW_TO_OLD\<close> whose index is
  \<open>r\<close> (its step count is its own), one call of \<^verbatim>\<open>rb_iter_advance\<close> returns \<open>p\<close> and
  stores \<open>p\<close>.
\<close>

theorem new_to_old_undoes_old_to_new:
  assumes "0 < size_rb a" and "index a < size_rb a"
    and "mode a = RING_BUFFER_ITER_OLD_TO_NEW"
    and "rb_iter_advance a = Inr (r, a')"
    and "mode b = RING_BUFFER_ITER_NEW_TO_OLD"
    and "size_rb b = size_rb a" and "index b = r"
  shows "\<exists>b'. rb_iter_advance b = Inr (index a, b') \<and> index b' = index a"
proof -
  from assms(1) have nz: "size_rb a \<noteq> 0" by auto
  have "rb_iter_advance a =
          Inr ((index a + 1) mod size_rb a,
               a\<lparr>index := (index a + 1) mod size_rb a, steps := steps a - 1\<rparr>)"
    using assms(3) nz by (rule advance_old_to_new)
  with assms(4) have r: "r = (index a + 1) mod size_rb a" by simp
  let ?q = "if index b = 0 then size_rb b - 1 else index b - 1"
  have "rb_iter_advance b = Inr (?q, b\<lparr>index := ?q, steps := steps b - 1\<rparr>)"
    using assms(5) by (rule advance_new_to_old)
  moreover have "?q = index a"
    using inverse_word [OF assms(2)] assms(6,7) r by (simp split: if_splits)
  ultimately show ?thesis by simp
qed

theorem new_to_old_undoes_old_to_new_witness:
  "rb_iter_advance \<lparr>mode = RING_BUFFER_ITER_OLD_TO_NEW, index = 4, size_rb = 5,
                    steps = 3 :: 64 word\<rparr> =
     Inr (0, \<lparr>mode = RING_BUFFER_ITER_OLD_TO_NEW, index = 0, size_rb = 5, steps = 2\<rparr>) \<and>
   (\<exists>b'. rb_iter_advance \<lparr>mode = RING_BUFFER_ITER_NEW_TO_OLD, index = 0, size_rb = 5,
                           steps = 9 :: 64 word\<rparr> = Inr (4, b') \<and> index b' = 4)"
proof -
  let ?a = "\<lparr>mode = RING_BUFFER_ITER_OLD_TO_NEW, index = 4, size_rb = 5, steps = 3 :: 64 word\<rparr>"
  let ?a' = "\<lparr>mode = RING_BUFFER_ITER_OLD_TO_NEW, index = 0, size_rb = 5, steps = 2 :: 64 word\<rparr>"
  let ?b = "\<lparr>mode = RING_BUFFER_ITER_NEW_TO_OLD, index = 0, size_rb = 5, steps = 9 :: 64 word\<rparr>"
  have adv: "rb_iter_advance ?a = Inr (0, ?a')"
    by (simp add: rb_iter_advance_def rb_iter_move_def)
  have "\<exists>b'. rb_iter_advance ?b = Inr (index ?a, b') \<and> index b' = index ?a"
    by (rule new_to_old_undoes_old_to_new [where a = ?a and r = 0 and a' = ?a']) (simp_all add: adv)
  with adv show ?thesis by simp
qed

text \<open>
  C10. On a valid iterator with \<open>steps = 0\<close>, \<^verbatim>\<open>rb_iter_advance\<close> still returns: it stores
  and returns an index below the capacity (the one its mode prescribes), and the
  decrement wraps \<open>steps\<close> around to \<open>2^w - 1\<close>, the largest value of the \<open>w\<close>-bit type, so
  that \<^verbatim>\<open>rb_iter_done\<close> answers false afterwards.
\<close>

theorem advance_when_exhausted_wraps:
  fixes iter :: "'w::len rb_iter"
  assumes "1 \<le> size_rb iter" and "index iter < size_rb iter" and "steps iter = 0"
  shows "\<exists>r iter'. rb_iter_advance iter = Inr (r, iter') \<and>
           unat (steps iter') = 2 ^ LENGTH('w) - 1 \<and> steps iter' = - 1 \<and>
           \<not> fst (rb_iter_done iter') \<and>
           r < size_rb iter \<and> index iter' = r \<and> size_rb iter' = size_rb iter \<and>
           r = (case mode iter of
                  RING_BUFFER_ITER_OLD_TO_NEW \<Rightarrow> (index iter + 1) mod size_rb iter
                | RING_BUFFER_ITER_NEW_TO_OLD \<Rightarrow>
                    if index iter = 0 then size_rb iter - 1 else index iter - 1)"
proof -
  from assms(2) have nz: "size_rb iter \<noteq> 0" by auto
  from advance_step [OF assms(2)] obtain r iter' where
    a: "rb_iter_advance iter = Inr (r, iter')" and r: "r < size_rb iter" and
    i: "index iter' = r" and s: "size_rb iter' = size_rb iter" and
    st: "steps iter' = steps iter - 1"
    by blast
  from st assms(3) have m: "steps iter' = - 1" by simp
  then have u: "unat (steps iter') = 2 ^ LENGTH('w) - 1"
    using word_zero_pred_unat [where 'w = 'w] by simp
  have d: "\<not> fst (rb_iter_done iter')" using m by (simp add: rb_iter_done_def)
  have "r = (case mode iter of
               RING_BUFFER_ITER_OLD_TO_NEW \<Rightarrow> (index iter + 1) mod size_rb iter
             | RING_BUFFER_ITER_NEW_TO_OLD \<Rightarrow>
                 if index iter = 0 then size_rb iter - 1 else index iter - 1)"
  proof (cases "mode iter")
    case RING_BUFFER_ITER_OLD_TO_NEW
    then show ?thesis using a nz by (simp add: advance_old_to_new)
  next
    case RING_BUFFER_ITER_NEW_TO_OLD
    then show ?thesis using a by (simp add: advance_new_to_old)
  qed
  with a u m d r i s show ?thesis by blast
qed

theorem advance_when_exhausted_wraps_witness:
  "\<exists>iter'. rb_iter_advance \<lparr>mode = RING_BUFFER_ITER_NEW_TO_OLD, index = 0, size_rb = 5,
                             steps = 0 :: 64 word\<rparr> = Inr (4, iter') \<and>
           unat (steps iter') = 18446744073709551615 \<and> \<not> fst (rb_iter_done iter') \<and>
           index iter' = 4"
  using advance_when_exhausted_wraps
    [of "\<lparr>mode = RING_BUFFER_ITER_NEW_TO_OLD, index = 0, size_rb = 5, steps = 0 :: 64 word\<rparr>"]
  by auto

section \<open>The claim about the range validator\<close>

text \<open>
  C9. For every type with \<^verbatim>\<open>>=\<close> and \<^verbatim>\<open><=\<close>, whatever they are, and every \<open>min\<close>, \<open>max\<close> and
  \<open>v\<close>: the validator constructed from \<open>min\<close> and \<open>max\<close> answers true on \<open>v\<close> exactly
  when \<open>v >= min\<close> and \<open>v <= max\<close>. Where the two operators are \<open>\<ge>\<close> and \<open>\<le>\<close> of HOL, that
  is membership of \<open>v\<close> in the closed interval from \<open>min\<close> to \<open>max\<close>; and where \<open>\<le>\<close> is
  reflexive, each of the two limits is accepted exactly when the interval is not empty.
\<close>

theorem RangeValidator_inclusive:
  "RangeValidator_call ge le (RangeValidator mn mx) v = (ge v mn \<and> le v mx) \<and>
   RangeValidator_call (\<ge>) (\<le>) (RangeValidator lo hi) (x :: 'b :: ord) = (x \<in> {lo..hi}) \<and>
   RangeValidator_call (\<ge>) (\<le>) (RangeValidator l u) (l :: 'c :: preorder) = (l \<le> u) \<and>
   RangeValidator_call (\<ge>) (\<le>) (RangeValidator l u) u = (l \<le> u)"
  by (simp add: RangeValidator_call_def RangeValidator_def)

end
